theory Spec2Isabelle
  imports Complex_Main
begin

section \<open>Gaussian integers: entity, primality test and counting (gaussianprimes.py)\<close>

subsection \<open>Python values and errors\<close>

text \<open>
  The constructor of \<^verbatim>\<open>GaussInt\<close> inspects the run-time type of its arguments with
  \<^verbatim>\<open>isinstance(x, int)\<close>. The values it can be handed are modelled by a small datatype.
  In Python \<^verbatim>\<open>bool\<close> is a subclass of \<^verbatim>\<open>int\<close>, so \<^verbatim>\<open>isinstance(True, int)\<close>
  holds and \<^verbatim>\<open>True\<close> behaves as the integer 1 in all arithmetic.
\<close>

datatype pyval = PyInt int | PyBool bool | PyFloat real | PyStr string | PyNone

datatype error = Exception string | ValueError | IndexError

fun isinstance_int :: "pyval \<Rightarrow> bool" where
  "isinstance_int (PyInt n) = True"
| "isinstance_int (PyBool p) = True"
| "isinstance_int v = False"

fun int_value :: "pyval \<Rightarrow> int" where
  "int_value (PyInt n) = n"
| "int_value (PyBool p) = (if p then 1 else 0)"
| "int_value v = 0"

subsection \<open>External services: rational primality and the integer square root\<close>

text \<open>
  \<^verbatim>\<open>sympy.isprime(n)\<close> is an external library function: it is true exactly for the
  prime numbers 2, 3, 5, ... and false for every integer below 2. It is modelled by trial
  division, which computes the same predicate and can be evaluated.
\<close>

definition sp_isprime :: "int \<Rightarrow> bool" where
  "sp_isprime n = (2 \<le> n \<and> list_all (\<lambda>d. n mod d \<noteq> 0) [2..n - 1])"

text \<open>
  \<^verbatim>\<open>int(np.sqrt(r))\<close>: for \<open>r < 0\<close> numpy's square root is NaN and \<^verbatim>\<open>int(nan)\<close>
  raises \<^verbatim>\<open>ValueError\<close>; otherwise the result is numpy's square root, truncated to an
  integer. The radius \<open>r\<close> is the real number a Python \<^verbatim>\<open>float\<close> (a double) stands for;
  a Python \<^verbatim>\<open>int\<close> below \<open>2 ^ 53\<close> is converted to the double of the same value.

  numpy's square root is the double nearest to the exact root. With \<open>q = \<lfloor>sqrt r\<rfloor>\<close>,
  computed by \<open>isqrt\<close> on the integer part of \<open>r\<close> (lemma \<open>isqrt_floor_sqrt\<close>), that
  double lies between \<open>q\<close> and \<open>q + 1\<close>, both doubles, so the truncated result is \<open>q\<close> or
  \<open>q + 1\<close>: it is \<open>q + 1\<close> exactly when the root is at least the midpoint between \<open>q + 1\<close>
  and the double just below it, as happens for \<open>r\<close> just below a perfect square. The
  doubles just below an integer \<open>n \<ge> 1\<close> are \<open>2 ^ (bitlen (n - 1) - 53)\<close> apart, where
  \<open>bitlen\<close> is the number of binary digits; \<open>half_ulp_below n\<close> is half of that. This is
  the double-precision result as long as \<open>q + 1 < 2 ^ 52\<close>, that is for every radius below
  \<open>2 ^ 104\<close>; the loops cannot run to their end for a radius anywhere near that.
\<close>

primrec isqrt :: "nat \<Rightarrow> nat" where
  "isqrt 0 = 0"
| "isqrt (Suc n) = (let q = isqrt n in if (q + 1) * (q + 1) \<le> Suc n then q + 1 else q)"

fun bitlen :: "nat \<Rightarrow> nat" where
  "bitlen n = (if n = 0 then 0 else Suc (bitlen (n div 2)))"

declare bitlen.simps [simp del]

definition half_ulp_below :: "nat \<Rightarrow> real" where
  "half_ulp_below n = 2 ^ bitlen (n - 1) / 2 ^ 54"

definition np_sqrt_trunc :: "real \<Rightarrow> nat" where
  "np_sqrt_trunc r =
     (let q = isqrt (nat \<lfloor>r\<rfloor>)
      in if (real (q + 1) - half_ulp_below (q + 1))\<^sup>2 \<le> r then q + 1 else q)"

definition int_sqrt :: "real \<Rightarrow> error + nat" where
  "int_sqrt r = (if r < 0 then Inl ValueError else Inr (np_sqrt_trunc r))"

subsection \<open>class GaussInt\<close>

record GaussInt =
  a :: int
  b :: int
  var_isprime :: "bool option"
  var_norm :: "int option"

text \<open>The object a successful \<^verbatim>\<open>__init__\<close> leaves behind: both caches are \<^verbatim>\<open>None\<close>.\<close>

definition new_GaussInt :: "int \<Rightarrow> int \<Rightarrow> GaussInt" where
  "new_GaussInt x y = \<lparr>a = x, b = y, var_isprime = None, var_norm = None\<rparr>"

definition GaussInt_init :: "pyval \<Rightarrow> pyval \<Rightarrow> error + GaussInt" where
  "GaussInt_init x y =
     (if \<not> (isinstance_int x \<and> isinstance_int y)
      then Inl (Exception ''GaussInt must be given two integers'')
      else Inr (new_GaussInt (int_value x) (int_value y)))"

text \<open>
  \<^verbatim>\<open>norm\<close> and \<^verbatim>\<open>isprime\<close> write their result into the object on the first call;
  the model returns the result together with the updated object.
\<close>

definition GaussInt_norm :: "GaussInt \<Rightarrow> int \<times> GaussInt" where
  "GaussInt_norm self =
     (case var_norm self of
        None \<Rightarrow> (let n = (a self)\<^sup>2 + (b self)\<^sup>2 in (n, self\<lparr>var_norm := Some n\<rparr>))
      | Some n \<Rightarrow> (n, self))"

definition GaussInt_isprime :: "GaussInt \<Rightarrow> bool \<times> GaussInt" where
  "GaussInt_isprime self =
     (case var_isprime self of
        Some p \<Rightarrow> (p, self)
      | None \<Rightarrow>
          (if a self = 0 \<and> b self = 0 then (False, self\<lparr>var_isprime := Some False\<rparr>)
           else if a self = 1 \<and> b self = 0 then (False, self\<lparr>var_isprime := Some False\<rparr>)
           else if a self = 1 \<and> b self = 1 then (True, self\<lparr>var_isprime := Some True\<rparr>)
           else if b self = 0 \<and> a self mod 4 = 3 \<and> sp_isprime (a self)
             then (True, self\<lparr>var_isprime := Some True\<rparr>)
           else (let (n, self') = GaussInt_norm self; p = sp_isprime n
                 in (p, self'\<lparr>var_isprime := Some p\<rparr>))))"

definition GaussInt_add :: "GaussInt \<Rightarrow> GaussInt \<Rightarrow> GaussInt" where
  "GaussInt_add self other = new_GaussInt (a self + a other) (b self + b other)"

subsection \<open>ti\_no\_waste and ti\<close>

type_synonym grid = "GaussInt list list"

text \<open>The default of \<^verbatim>\<open>ti_no_waste\<close> when \<^verbatim>\<open>ints is None\<close>.\<close>

definition seed :: grid where
  "seed = [[new_GaussInt 0 0, new_GaussInt 0 1], [new_GaussInt 1 0, new_GaussInt 1 1]]"

text \<open>
  The first pair of loops: \<^verbatim>\<open>for x in ints: for y in x: if y.norm() <= r: sum += y.isprime()\<close>.
  The calls memoise inside the entries, so the rows are returned updated.
\<close>

fun count_row :: "real \<Rightarrow> GaussInt list \<Rightarrow> nat \<Rightarrow> nat \<times> GaussInt list" where
  "count_row r [] s = (s, [])"
| "count_row r (y # ys) s =
     (let (n, y1) = GaussInt_norm y;
          (s1, y2) = (if real_of_int n \<le> r
                      then (let (p, y') = GaussInt_isprime y1 in (s + (if p then 1 else 0), y'))
                      else (s, y1));
          (s2, ys') = count_row r ys s1
      in (s2, y2 # ys'))"

fun count_rows :: "real \<Rightarrow> grid \<Rightarrow> nat \<Rightarrow> nat \<times> grid" where
  "count_rows r [] s = (s, [])"
| "count_rows r (x # xs) s =
     (let (s1, x') = count_row r x s;
          (s2, xs') = count_rows r xs s1
      in (s2, x' # xs'))"

text \<open>
  The inner loop of the second part, \<^verbatim>\<open>for b in range(min_b, limit)\<close>, over the list of
  its \<open>b\<close> values. \<^verbatim>\<open>ints[a].append(d)\<close> raises \<^verbatim>\<open>IndexError\<close> when row \<open>a\<close> does not
  exist. The arguments of \<^verbatim>\<open>GaussInt(a, b)\<close> are values of a \<^verbatim>\<open>range\<close>, which are
  Python integers, so the constructor's check passes.
\<close>

fun append_entries :: "real \<Rightarrow> nat \<Rightarrow> nat list \<Rightarrow> nat \<times> grid \<Rightarrow> error + nat \<times> grid" where
  "append_entries r i [] (s, ints) = Inr (s, ints)"
| "append_entries r i (j # js) (s, ints) =
     (let d = new_GaussInt (int i) (int j);
          (n, d1) = GaussInt_norm d;
          (hit, d2) = (if real_of_int n \<le> r then GaussInt_isprime d1 else (False, d1));
          s' = (if hit then s + 1 else s)
      in if i < length ints
         then append_entries r i js (s', ints[i := ints ! i @ [d2]])
         else Inl IndexError)"

text \<open>
  The start column of row \<open>i\<close> in the second part: \<^verbatim>\<open>min_b = 0\<close> for a row that is
  new, \<^verbatim>\<open>min_b = orig_min_b\<close> otherwise.
\<close>

definition min_b :: "nat \<Rightarrow> nat \<Rightarrow> nat \<Rightarrow> nat" where
  "min_b orig_min_a orig_min_b i = (if i \<ge> orig_min_a then 0 else orig_min_b)"

text \<open>The outer loop \<^verbatim>\<open>for a in range(0, limit)\<close>, over the list of its \<open>a\<close> values.\<close>

fun extend_rows ::
  "real \<Rightarrow> nat \<Rightarrow> nat \<Rightarrow> nat \<Rightarrow> nat list \<Rightarrow> nat \<times> grid \<Rightarrow> error + nat \<times> grid" where
  "extend_rows r limit orig_min_a orig_min_b [] st = Inr st"
| "extend_rows r limit orig_min_a orig_min_b (i # rest) (s, ints) =
     (let ints1 = (if i \<ge> orig_min_a then ints @ [[]] else ints)
      in case append_entries r i [min_b orig_min_a orig_min_b i..<limit] (s, ints1) of
           Inl e \<Rightarrow> Inl e
         | Inr st' \<Rightarrow> extend_rows r limit orig_min_a orig_min_b rest st')"

text \<open>
  \<^verbatim>\<open>ti_no_waste(r, ints)\<close>. \<^verbatim>\<open>len(ints[0])\<close> raises \<^verbatim>\<open>IndexError\<close> on a grid with no
  row. The limit \<^verbatim>\<open>int(np.sqrt(r)) + 1\<close> is computed after the scan of the existing
  entries, when the \<^verbatim>\<open>range\<close> of the second part is built.
\<close>

definition ti_no_waste :: "real \<Rightarrow> grid option \<Rightarrow> error + nat \<times> grid" where
  "ti_no_waste r ints_arg =
     (let ints = (case ints_arg of None \<Rightarrow> seed | Some g \<Rightarrow> g);
          orig_min_a = length ints
      in case ints of
           [] \<Rightarrow> Inl IndexError
         | x0 # _ \<Rightarrow>
             (let orig_min_b = length x0;
                  (s, ints1) = count_rows r ints 0
              in case int_sqrt r of
                   Inl e \<Rightarrow> Inl e
                 | Inr q \<Rightarrow>
                     extend_rows r (q + 1) orig_min_a orig_min_b [0..<q + 1] (s, ints1)))"

text \<open>\<^verbatim>\<open>ti(r)\<close>: the count over a fresh square, nothing kept.\<close>

fun ti_row :: "real \<Rightarrow> nat \<Rightarrow> nat list \<Rightarrow> nat \<Rightarrow> nat" where
  "ti_row r i [] s = s"
| "ti_row r i (j # js) s =
     (let d = new_GaussInt (int i) (int j);
          (n, d1) = GaussInt_norm d;
          (hit, d2) = (if real_of_int n \<le> r then GaussInt_isprime d1 else (False, d1))
      in ti_row r i js (if hit then s + 1 else s))"

fun ti_rows :: "real \<Rightarrow> nat \<Rightarrow> nat list \<Rightarrow> nat \<Rightarrow> nat" where
  "ti_rows r limit [] s = s"
| "ti_rows r limit (i # rest) s = ti_rows r limit rest (ti_row r i [0..<limit] s)"

definition ti :: "real \<Rightarrow> error + nat" where
  "ti r = (case int_sqrt r of
             Inl e \<Rightarrow> Inl e
           | Inr q \<Rightarrow> Inr (ti_rows r (q + 1) [0..<q + 1] 0))"

text \<open>
  The drivers (\<^verbatim>\<open>debug_ti_no_waste\<close>, \<^verbatim>\<open>plot_ti\<close>) feed a list of radii one by one,
  handing each returned grid to the next call. The results of all calls are collected.
\<close>

fun ti_no_waste_seq :: "real list \<Rightarrow> grid option \<Rightarrow> error + (nat \<times> grid) list" where
  "ti_no_waste_seq [] ints_arg = Inr []"
| "ti_no_waste_seq (r # rs) ints_arg =
     (case ti_no_waste r ints_arg of
        Inl e \<Rightarrow> Inl e
      | Inr (s, ints) \<Rightarrow>
          (case ti_no_waste_seq rs (Some ints) of
             Inl e \<Rightarrow> Inl e
           | Inr out \<Rightarrow> Inr ((s, ints) # out)))"

subsection \<open>Notions used to state the properties\<close>

text \<open>
  The calls on an entity that write into it, and the effect of calling one of them on
  the object. A list of them stands for any sequence of calls made on one entity.
\<close>

datatype memo_call = Norm | IsPrime

fun call :: "GaussInt \<Rightarrow> memo_call \<Rightarrow> GaussInt" where
  "call g Norm = snd (GaussInt_norm g)"
| "call g IsPrime = snd (GaussInt_isprime g)"

text \<open>
  The decision procedure as the specification words it (rules 1 to 5, in this order), to
  be compared with \<open>GaussInt_isprime\<close>.
\<close>

definition isPrime_spec :: "int \<Rightarrow> int \<Rightarrow> bool" where
  "isPrime_spec x y =
     (if x = 0 \<and> y = 0 then False
      else if x = 1 \<and> y = 0 then False
      else if x = 1 \<and> y = 1 then True
      else if y = 0 \<and> x mod 4 = 3 \<and> sp_isprime x then True
      else sp_isprime (x * x + y * y))"

text \<open>
  An entry for the point \<open>(x, y)\<close> whose caches, where filled, hold the values the
  calls compute.
\<close>

definition entry_ok :: "int \<Rightarrow> int \<Rightarrow> GaussInt \<Rightarrow> bool" where
  "entry_ok x y e =
     (a e = x \<and> b e = y \<and>
      (var_norm e = None \<or> var_norm e = Some (x * x + y * y)) \<and>
      (var_isprime e = None \<or> var_isprime e = Some (isPrime_spec x y)))"

text \<open>
  The test both counting loops apply to an entry: \<^verbatim>\<open>norm() <= r\<close> and, only then,
  \<^verbatim>\<open>isprime()\<close>. It yields the outcome and the entry with its caches written.
\<close>

definition probe :: "real \<Rightarrow> GaussInt \<Rightarrow> bool \<times> GaussInt" where
  "probe r d = (let (n, d1) = GaussInt_norm d
                in if real_of_int n \<le> r then GaussInt_isprime d1 else (False, d1))"

text \<open>
  What the second part builds for the point \<open>(i, j)\<close>: the new entity after its test.
\<close>

definition fresh :: "real \<Rightarrow> nat \<Rightarrow> nat \<Rightarrow> GaussInt" where
  "fresh r i j = snd (probe r (new_GaussInt (int i) (int j)))"

text \<open>The grid after the scan of the first part: the same entries, caches written.\<close>

definition scanned :: "real \<Rightarrow> grid \<Rightarrow> grid" where
  "scanned r g = map (map (\<lambda>y. snd (probe r y))) g"

text \<open>The bound of both ranges of the second part, \<^verbatim>\<open>int(np.sqrt(r)) + 1\<close>.\<close>

definition limit_of :: "real \<Rightarrow> nat" where
  "limit_of r = np_sqrt_trunc r + 1"

text \<open>
  The point \<open>(i, j)\<close> counts for the radius \<open>r\<close>: its norm is at most \<open>r\<close> and it is
  prime by the five rules. \<open>cnt\<close> counts such points of row \<open>i\<close> among a list of columns.
\<close>

definition hit :: "real \<Rightarrow> nat \<Rightarrow> nat \<Rightarrow> bool" where
  "hit r i j = (real_of_int (int i * int i + int j * int j) \<le> r \<and> isPrime_spec (int i) (int j))"

definition hits :: "real \<Rightarrow> nat \<Rightarrow> nat \<Rightarrow> nat" where
  "hits r i j = (if hit r i j then 1 else 0)"

definition cnt :: "real \<Rightarrow> nat \<Rightarrow> nat list \<Rightarrow> nat" where
  "cnt r i js = length (filter (hit r i) js)"

text \<open>
  The shape invariant of the grid: the entry at position \<open>j\<close> of row \<open>i\<close> has the
  coordinates \<open>(i, j)\<close>. \<open>memo_ok\<close> adds that every filled cache holds the computed value.
\<close>

definition coords :: "GaussInt \<Rightarrow> int \<times> int" where
  "coords e = (a e, b e)"

definition coords_ok :: "grid \<Rightarrow> bool" where
  "coords_ok g = (\<forall>i<length g. \<forall>j<length (g ! i). a (g ! i ! j) = int i \<and> b (g ! i ! j) = int j)"

definition memo_ok :: "grid \<Rightarrow> bool" where
  "memo_ok g = (\<forall>i<length g. \<forall>j<length (g ! i). entry_ok (int i) (int j) (g ! i ! j))"

definition all_entries :: "(nat \<Rightarrow> nat \<Rightarrow> GaussInt \<Rightarrow> bool) \<Rightarrow> grid \<Rightarrow> bool" where
  "all_entries P g = (\<forall>i<length g. \<forall>j<length (g ! i). P i j (g ! i ! j))"

text \<open>A square grid of size \<open>n\<close>; \<open>sq\<close> is one with at least one row and sound caches.\<close>

definition square_grid :: "nat \<Rightarrow> grid \<Rightarrow> bool" where
  "square_grid n g = (length g = n \<and> (\<forall>i<n. length (g ! i) = n) \<and> coords_ok g)"

definition sq :: "nat \<Rightarrow> grid \<Rightarrow> bool" where
  "sq n g = (0 < n \<and> length g = n \<and> (\<forall>i<n. length (g ! i) = n) \<and> memo_ok g)"

text \<open>Rows are neither removed nor shortened from \<open>g\<close> to \<open>g'\<close>.\<close>

definition grid_le :: "grid \<Rightarrow> grid \<Rightarrow> bool" where
  "grid_le g g' = (length g \<le> length g' \<and> (\<forall>i<length g. length (g ! i) \<le> length (g' ! i)))"

text \<open>
  The entry \<open>e'\<close> is the entry \<open>e\<close>, possibly with a cache written that was empty: the
  same point, and no filled cache changed.
\<close>

definition kept :: "GaussInt \<Rightarrow> GaussInt \<Rightarrow> bool" where
  "kept e e' =
     (a e' = a e \<and> b e' = b e \<and>
      (var_norm e = None \<or> var_norm e' = var_norm e) \<and>
      (var_isprime e = None \<or> var_isprime e' = var_isprime e))"

text \<open>
  The grid when the outer loop of the second part has handled the rows below \<open>k\<close>, from
  the grid \<open>g\<close> of \<open>n\<close> rows it started with: a handled old row has the new entries of
  the columns \<open>m..<L\<close> appended, a new row holds the columns \<open>0..<L\<close>.
\<close>

definition ext_upto :: "real \<Rightarrow> nat \<Rightarrow> nat \<Rightarrow> nat \<Rightarrow> nat \<Rightarrow> grid \<Rightarrow> grid" where
  "ext_upto r L n m k g =
     map (\<lambda>i. if i < n then (if i < k then g ! i @ map (fresh r i) [m..<L] else g ! i)
               else map (fresh r i) [0..<L])
         [0..<max n k]"


text \<open>The grid that \<^verbatim>\<open>ti_no_waste(16)\<close>, called with no grid, returns: the square of size 5.\<close>

definition grid5 :: grid where
  "grid5 = (case ti_no_waste 16 None of Inr (s, g) \<Rightarrow> g | Inl e \<Rightarrow> [])"

section \<open>Properties\<close>

subsection \<open>The external services\<close>

lemma sp_isprime_iff: "sp_isprime n = (2 \<le> n \<and> (\<forall>d. 2 \<le> d \<and> d < n \<longrightarrow> \<not> d dvd n))"
  by (auto simp add: sp_isprime_def list_all_iff mod_eq_0_iff_dvd)

lemma isqrt_bounds: "isqrt n * isqrt n \<le> n \<and> n < (isqrt n + 1) * (isqrt n + 1)"
  by (induction n) (auto simp add: Let_def)

lemma isqrt_floor_sqrt:
  assumes "0 \<le> r"
  shows "isqrt (nat \<lfloor>r\<rfloor>) = nat \<lfloor>sqrt r\<rfloor>"
proof -
  define q where "q = isqrt (nat \<lfloor>r\<rfloor>)"
  have lo: "q * q \<le> nat \<lfloor>r\<rfloor>" and hi: "nat \<lfloor>r\<rfloor> < (q + 1) * (q + 1)"
    using isqrt_bounds[of "nat \<lfloor>r\<rfloor>"] by (simp_all add: q_def)
  have "real (nat \<lfloor>r\<rfloor>) \<le> r" using assms by simp
  then have "real (q * q) \<le> r" using lo by linarith
  then have "(real q)\<^sup>2 \<le> r" by (simp add: power2_eq_square)
  then have a1: "real q \<le> sqrt r" by (rule real_le_rsqrt)
  have "r < real (nat \<lfloor>r\<rfloor>) + 1" using assms by linarith
  moreover have "real (nat \<lfloor>r\<rfloor>) + 1 \<le> real ((q + 1) * (q + 1))" using hi by linarith
  moreover have "real ((q + 1) * (q + 1)) = (real q + 1)\<^sup>2" by (simp add: power2_eq_square algebra_simps)
  ultimately have "r < (real q + 1)\<^sup>2" by linarith
  then have a2: "sqrt r < real q + 1" by (simp add: real_less_lsqrt)
  have "\<lfloor>sqrt r\<rfloor> = int q"
    by (rule floor_unique) (use a1 a2 in simp_all)
  then show ?thesis by (simp add: q_def)
qed

lemma np_sqrt_trunc_bounds:
  "isqrt (nat \<lfloor>r\<rfloor>) \<le> np_sqrt_trunc r \<and> np_sqrt_trunc r \<le> isqrt (nat \<lfloor>r\<rfloor>) + 1"
  by (simp add: np_sqrt_trunc_def Let_def)

lemma limit_of_bounds:
  "0 \<le> r \<Longrightarrow> nat \<lfloor>sqrt r\<rfloor> + 1 \<le> limit_of r \<and> limit_of r \<le> nat \<lfloor>sqrt r\<rfloor> + 2"
  using np_sqrt_trunc_bounds[of r] by (simp add: limit_of_def isqrt_floor_sqrt)

lemma pow_bitlen_pos: "0 < k \<Longrightarrow> (2::nat) ^ bitlen k \<le> 2 * k"
proof (induction k rule: bitlen.induct)
  case (1 n)
  have n0: "n \<noteq> 0" using "1.prems" by simp
  have unfold: "(2::nat) ^ bitlen n = 2 * 2 ^ bitlen (n div 2)"
    using n0 by (subst bitlen.simps) simp
  show ?case
  proof (cases "n = 1")
    case True
    have "bitlen (0::nat) = 0" by (simp add: bitlen.simps)
    then show ?thesis using True unfold by simp
  next
    case False
    then have h: "0 < n div 2" using n0 by presburger
    have "2 ^ bitlen n \<le> 2 * (2 * (n div 2))"
      unfolding unfold using "1.IH"[OF n0 h] by simp
    also have "\<dots> \<le> 2 * n" by presburger
    finally show ?thesis .
  qed
qed

lemma pow_bitlen_le: "(2::nat) ^ bitlen k \<le> 2 * k + 1"
proof (cases "k = 0")
  case True
  then show ?thesis by (simp add: bitlen.simps)
next
  case False
  then show ?thesis using pow_bitlen_pos[of k] by simp
qed

lemma half_ulp_below_le: "0 < n \<Longrightarrow> half_ulp_below n \<le> real n"
proof -
  assume n: "0 < n"
  have "(2::real) ^ bitlen (n - 1) \<le> real (2 * (n - 1) + 1)"
    using pow_bitlen_le[of "n - 1"] by (metis of_nat_le_iff of_nat_numeral of_nat_power)
  also have "\<dots> \<le> real n * 2 ^ 54" using n by simp
  finally show ?thesis by (simp add: half_ulp_below_def field_simps)
qed

text \<open>
  The comparison of squares in \<open>np_sqrt_trunc\<close> is the comparison of the exact root with
  the midpoint below \<open>\<lfloor>sqrt r\<rfloor> + 1\<close>.
\<close>

lemma np_sqrt_trunc_rounding:
  assumes "0 \<le> r"
  shows "np_sqrt_trunc r =
     (if real (nat \<lfloor>sqrt r\<rfloor> + 1) - half_ulp_below (nat \<lfloor>sqrt r\<rfloor> + 1) \<le> sqrt r
      then nat \<lfloor>sqrt r\<rfloor> + 1 else nat \<lfloor>sqrt r\<rfloor>)"
proof -
  define q where "q = nat \<lfloor>sqrt r\<rfloor>"
  define m where "m = real (q + 1) - half_ulp_below (q + 1)"
  have m0: "0 \<le> m" using half_ulp_below_le[of "q + 1"] by (simp add: m_def)
  have "(m\<^sup>2 \<le> r) = (m \<le> sqrt r)"
  proof
    assume "m\<^sup>2 \<le> r"
    then show "m \<le> sqrt r" by (rule real_le_rsqrt)
  next
    assume "m \<le> sqrt r"
    then have "m\<^sup>2 \<le> (sqrt r)\<^sup>2" using m0 by (simp add: power_mono)
    then show "m\<^sup>2 \<le> r" using assms by simp
  qed
  then show ?thesis
    unfolding q_def[symmetric]
    by (simp add: np_sqrt_trunc_def isqrt_floor_sqrt[OF assms] q_def[symmetric] m_def Let_def)
qed

lemma sq_less_limit:
  assumes "0 \<le> r" and "real (k * k) \<le> r"
  shows "k < limit_of r"
proof (rule ccontr)
  assume "\<not> k < limit_of r"
  then have "limit_of r \<le> k" by simp
  then have "limit_of r * limit_of r \<le> k * k" by (simp add: mult_le_mono)
  moreover have "nat \<lfloor>r\<rfloor> < limit_of r * limit_of r"
  proof -
    have le: "isqrt (nat \<lfloor>r\<rfloor>) + 1 \<le> limit_of r"
      using np_sqrt_trunc_bounds[of r] by (simp add: limit_of_def)
    have "(isqrt (nat \<lfloor>r\<rfloor>) + 1) * (isqrt (nat \<lfloor>r\<rfloor>) + 1) \<le> limit_of r * limit_of r"
      by (rule mult_le_mono[OF le le])
    then show ?thesis using isqrt_bounds[of "nat \<lfloor>r\<rfloor>"] by linarith
  qed
  moreover have "k * k \<le> nat \<lfloor>r\<rfloor>"
    using assms by (simp add: le_nat_floor)
  ultimately show False by linarith
qed

text \<open>
  Values of \<^verbatim>\<open>int(np.sqrt(r))\<close> around the perfect square 25 and below 1: the root of
  the double \<open>25 - 2 ^ -48\<close> is rounded up to 5.0, the root of the double before it is
  not.
\<close>

lemma int_sqrt_values:
  "int_sqrt 24 = Inr 4 \<and> int_sqrt (25 - 1 / 2 ^ 47) = Inr 4 \<and>
   int_sqrt (25 - 1 / 2 ^ 48) = Inr 5 \<and> int_sqrt 25 = Inr 5 \<and>
   int_sqrt (1 - 1 / 2 ^ 53) = Inr 0 \<and> int_sqrt 0 = Inr 0 \<and>
   int_sqrt (- 1 / 2) = Inl ValueError"
  by code_simp

subsection \<open>The entity\<close>

lemma entry_ok_new: "entry_ok x y (new_GaussInt x y)"
  by (simp add: entry_ok_def new_GaussInt_def)

lemma norm_ok:
  assumes "entry_ok x y e"
  shows "fst (GaussInt_norm e) = x * x + y * y" and "entry_ok x y (snd (GaussInt_norm e))"
  using assms
  by (auto simp: entry_ok_def GaussInt_norm_def Let_def power2_eq_square split: option.splits)

lemma isprime_ok:
  assumes "entry_ok x y e"
  shows "fst (GaussInt_isprime e) = isPrime_spec x y" and "entry_ok x y (snd (GaussInt_isprime e))"
proof -
  have n: "fst (GaussInt_norm e) = x * x + y * y"
    by (rule norm_ok(1)[OF assms])
  have ab: "a e = x" "b e = y" using assms by (simp_all add: entry_ok_def)
  have c: "var_isprime e = None \<or> var_isprime e = Some (isPrime_spec x y)"
    using assms by (simp add: entry_ok_def)
  show "fst (GaussInt_isprime e) = isPrime_spec x y"
    using c by (auto simp add: GaussInt_isprime_def isPrime_spec_def ab n split_beta Let_def)
  have k: "entry_ok x y (snd (GaussInt_norm e))" by (rule norm_ok(2)[OF assms])
  have upd: "\<And>e'. entry_ok x y e' \<Longrightarrow> entry_ok x y (e'\<lparr>var_isprime := Some (isPrime_spec x y)\<rparr>)"
    by (simp add: entry_ok_def)
  show "entry_ok x y (snd (GaussInt_isprime e))"
    using c
  proof
    assume "var_isprime e = Some (isPrime_spec x y)"
    then show ?thesis using assms by (simp add: GaussInt_isprime_def)
  next
    assume nn: "var_isprime e = None"
    have "snd (GaussInt_isprime e) = e\<lparr>var_isprime := Some (isPrime_spec x y)\<rparr> \<or>
          snd (GaussInt_isprime e) = (snd (GaussInt_norm e))\<lparr>var_isprime := Some (isPrime_spec x y)\<rparr>"
      by (simp add: GaussInt_isprime_def isPrime_spec_def ab n nn split_beta Let_def)
    then show ?thesis using upd[OF assms] upd[OF k] by auto
  qed
qed

lemma call_ok: "entry_ok x y e \<Longrightarrow> entry_ok x y (call e m)"
  by (cases m) (simp_all add: norm_ok isprime_ok)

lemma calls_ok: "entry_ok x y e \<Longrightarrow> entry_ok x y (foldl call e ms)"
  by (induction ms arbitrary: e) (simp_all add: call_ok)

text \<open>
  Claim C7. The constructor fails, with the exception it raises before anything is
  stored, exactly when one of the two arguments is not an instance of \<^verbatim>\<open>int\<close>; with two
  integers it succeeds and the object holds them unchanged, both caches empty.
\<close>

theorem GaussInt_init_checks:
  "((\<exists>e. GaussInt_init x y = Inl e) = (\<not> (isinstance_int x \<and> isinstance_int y))) \<and>
   ((GaussInt_init x y = Inl (Exception ''GaussInt must be given two integers''))
      = (\<not> (isinstance_int x \<and> isinstance_int y))) \<and>
   GaussInt_init (PyInt m) (PyInt n) = Inr \<lparr>a = m, b = n, var_isprime = None, var_norm = None\<rparr>"
  by (simp add: GaussInt_init_def new_GaussInt_def)

theorem GaussInt_init_checks_witness:
  "GaussInt_init (PyInt 2) (PyFloat (1 / 2)) = Inl (Exception ''GaussInt must be given two integers'') \<and>
   GaussInt_init (PyStr ''3'') (PyInt 4) = Inl (Exception ''GaussInt must be given two integers'') \<and>
   GaussInt_init (PyInt 3) (PyInt (- 4)) = Inr \<lparr>a = 3, b = - 4, var_isprime = None, var_norm = None\<rparr>"
  using GaussInt_init_checks [of "PyInt 2" "PyFloat (1 / 2)" 3 "- 4"]
    GaussInt_init_checks [of "PyStr ''3''" "PyInt 4" 3 "- 4"]
  by simp

text \<open>
  Claim C8. For all integers \<open>x\<close> and \<open>y\<close>, on the entity constructed from them
  \<^verbatim>\<open>norm()\<close> returns \<open>x * x + y * y\<close>, and it returns this same value after any number of
  earlier calls of \<^verbatim>\<open>norm\<close> and \<^verbatim>\<open>isprime\<close> on the entity: the cache does not change it.
\<close>

theorem norm_value:
  "GaussInt_init (PyInt x) (PyInt y) = Inr g \<Longrightarrow>
   fst (GaussInt_norm (foldl call g ms)) = x * x + y * y"
proof -
  assume "GaussInt_init (PyInt x) (PyInt y) = Inr g"
  then have "g = new_GaussInt x y" by (simp add: GaussInt_init_def)
  then have "entry_ok x y (foldl call g ms)" by (simp add: calls_ok entry_ok_new)
  then show ?thesis by (rule norm_ok)
qed

theorem norm_value_witness:
  "GaussInt_init (PyInt 3) (PyInt (- 4)) = Inr (new_GaussInt 3 (- 4)) \<and>
   fst (GaussInt_norm (foldl call (new_GaussInt 3 (- 4)) [Norm, IsPrime, Norm])) = 25"
proof -
  have h: "GaussInt_init (PyInt 3) (PyInt (- 4)) = Inr (new_GaussInt 3 (- 4))"
    by (simp add: GaussInt_init_def)
  show ?thesis using h norm_value [OF h, of "[Norm, IsPrime, Norm]"] by simp
qed

text \<open>
  Claim C2. On the entity for \<open>(x, y)\<close>, after any earlier calls, \<^verbatim>\<open>isprime()\<close>
  returns what the five rules give in their order: \<open>(0,0)\<close> and \<open>(1,0)\<close> are not prime,
  \<open>(1,1)\<close> is, a point with \<open>y = 0\<close>, \<open>x mod 4 = 3\<close> and \<open>x\<close> a rational prime is, and
  any other point is prime exactly when its norm is a rational prime. The known values
  of the specification follow.
\<close>

theorem isprime_precedence:
  "fst (GaussInt_isprime (foldl call (new_GaussInt x y) ms)) = isPrime_spec x y \<and>
   fst (GaussInt_isprime (new_GaussInt 0 0)) = False \<and>
   fst (GaussInt_isprime (new_GaussInt 1 0)) = False \<and>
   fst (GaussInt_isprime (new_GaussInt 1 1)) = True \<and>
   fst (GaussInt_isprime (new_GaussInt 3 0)) = True \<and>
   fst (GaussInt_isprime (new_GaussInt 2 0)) = False \<and>
   fst (GaussInt_isprime (new_GaussInt 1 2)) = True \<and>
   fst (GaussInt_isprime (new_GaussInt 2 2)) = False"
proof -
  have "entry_ok x y (foldl call (new_GaussInt x y) ms)"
    by (simp add: calls_ok entry_ok_new)
  then have g: "fst (GaussInt_isprime (foldl call (new_GaussInt x y) ms)) = isPrime_spec x y"
    by (rule isprime_ok)
  have v: "fst (GaussInt_isprime (new_GaussInt 0 0)) = False"
    "fst (GaussInt_isprime (new_GaussInt 1 0)) = False"
    "fst (GaussInt_isprime (new_GaussInt 1 1)) = True"
    "fst (GaussInt_isprime (new_GaussInt 3 0)) = True"
    "fst (GaussInt_isprime (new_GaussInt 2 0)) = False"
    "fst (GaussInt_isprime (new_GaussInt 1 2)) = True"
    "fst (GaussInt_isprime (new_GaussInt 2 2)) = False"
    by code_simp+
  show ?thesis using g v by simp
qed

theorem isprime_precedence_witness:
  "fst (GaussInt_isprime (foldl call (new_GaussInt 7 0) [IsPrime, Norm])) = True \<and>
   fst (GaussInt_isprime (foldl call (new_GaussInt 2 1) [Norm])) = True \<and>
   fst (GaussInt_isprime (foldl call (new_GaussInt 5 0) [])) = False"
proof -
  have "isPrime_spec 7 0 = True" "isPrime_spec 2 1 = True" "isPrime_spec 5 0 = False"
    by code_simp+
  then show ?thesis
    using isprime_precedence [of 7 0 "[IsPrime, Norm]"] isprime_precedence [of 2 1 "[Norm]"]
      isprime_precedence [of 5 0 "[]"]
    by simp
qed

text \<open>
  Claim C9. There is no rule for the imaginary axis: for every \<open>y\<close> the point \<open>(0, y)\<close>
  is decided by the primality of its norm \<open>y * y\<close> alone. So \<^verbatim>\<open>isprime\<close> of \<open>(0,3)\<close> is
  false, because its norm 9 is not a rational prime; rule 4 does not apply to it (its
  \<open>b\<close> is not 0), although 3 is a rational prime with \<open>3 mod 4 = 3\<close> and \<open>(3,0)\<close> is prime
  by that rule.
\<close>

theorem isprime_imaginary_axis:
  "fst (GaussInt_isprime (new_GaussInt 0 y)) = sp_isprime (y * y) \<and>
   fst (GaussInt_isprime (new_GaussInt 0 3)) = False \<and>
   fst (GaussInt_norm (new_GaussInt 0 3)) = 9 \<and>
   sp_isprime 9 = False \<and>
   (b (new_GaussInt 0 3) = 0) = False \<and>
   (3 mod 4 = (3::int) \<and> sp_isprime 3) \<and>
   fst (GaussInt_isprime (new_GaussInt 3 0)) = True"
proof -
  have z: "sp_isprime 0 = False" by code_simp
  have g: "fst (GaussInt_isprime (new_GaussInt 0 y)) = sp_isprime (y * y)"
    by (simp add: GaussInt_isprime_def GaussInt_norm_def new_GaussInt_def power2_eq_square z Let_def)
  have v: "fst (GaussInt_isprime (new_GaussInt 0 3)) = False"
    "fst (GaussInt_norm (new_GaussInt 0 3)) = 9"
    "sp_isprime 9 = False" "(b (new_GaussInt 0 3) = 0) = False"
    "sp_isprime 3" "fst (GaussInt_isprime (new_GaussInt 3 0)) = True"
    by code_simp+
  show ?thesis using g v by simp
qed

theorem isprime_imaginary_axis_witness:
  "fst (GaussInt_isprime (new_GaussInt 0 7)) = sp_isprime 49 \<and> sp_isprime 49 = False"
proof -
  have "sp_isprime 49 = False" by code_simp
  then show ?thesis using isprime_imaginary_axis [of 7] by simp
qed

subsection \<open>The loops in closed form\<close>

lemma probe_ok:
  assumes "entry_ok x y e"
  shows "fst (probe r e) = (real_of_int (x * x + y * y) \<le> r \<and> isPrime_spec x y)"
    and "entry_ok x y (snd (probe r e))"
proof -
  have n: "fst (GaussInt_norm e) = x * x + y * y" and k: "entry_ok x y (snd (GaussInt_norm e))"
    using norm_ok[OF assms] by simp_all
  show "fst (probe r e) = (real_of_int (x * x + y * y) \<le> r \<and> isPrime_spec x y)"
    using isprime_ok(1)[OF k] by (simp add: probe_def split_beta n)
  show "entry_ok x y (snd (probe r e))"
    using isprime_ok(2)[OF k] k by (simp add: probe_def split_beta n)
qed

lemma fresh_hit: "fst (probe r (new_GaussInt (int i) (int j))) = hit r i j"
  using probe_ok(1)[OF entry_ok_new] by (simp add: hit_def)

lemma fresh_ok: "entry_ok (int i) (int j) (fresh r i j)"
  unfolding fresh_def by (rule probe_ok(2)[OF entry_ok_new])

lemma norm_coords: "a (snd (GaussInt_norm e)) = a e \<and> b (snd (GaussInt_norm e)) = b e"
  by (simp add: GaussInt_norm_def Let_def split: option.splits)

lemma isprime_coords: "a (snd (GaussInt_isprime e)) = a e \<and> b (snd (GaussInt_isprime e)) = b e"
  by (simp add: GaussInt_isprime_def Let_def split_beta norm_coords split: option.splits)

lemma probe_coords: "a (snd (probe r e)) = a e \<and> b (snd (probe r e)) = b e"
  by (simp add: probe_def split_beta isprime_coords norm_coords)


lemma kept_refl: "kept e e"
  by (simp add: kept_def)

lemma kept_norm: "kept e (snd (GaussInt_norm e))"
  by (auto simp add: kept_def GaussInt_norm_def Let_def split: option.splits)

lemma kept_trans: "kept e1 e2 \<Longrightarrow> kept e2 e3 \<Longrightarrow> kept e1 e3"
  by (auto simp add: kept_def)

lemma kept_upd: "var_isprime e = None \<Longrightarrow> kept e (e\<lparr>var_isprime := p\<rparr>)"
  by (simp add: kept_def)

lemma kept_isprime: "kept e (snd (GaussInt_isprime e))"
proof (cases "var_isprime e")
  case (Some p)
  then show ?thesis by (simp add: GaussInt_isprime_def kept_refl)
next
  case None
  have n: "var_isprime (snd (GaussInt_norm e)) = None"
    using None by (simp add: GaussInt_norm_def Let_def split: option.splits)
  have "kept e ((snd (GaussInt_norm e))\<lparr>var_isprime := p\<rparr>)" for p
    using kept_trans[OF kept_norm kept_upd[OF n]] .
  then show ?thesis
    using None kept_upd[OF None] by (simp add: GaussInt_isprime_def Let_def split_beta)
qed

lemma kept_probe: "kept e (snd (probe r e))"
  using kept_trans[OF kept_norm kept_isprime] kept_norm
  by (simp add: probe_def split_beta)

lemma count_row_probe:
  "count_row r ys s = (s + length (filter (\<lambda>y. fst (probe r y)) ys), map (\<lambda>y. snd (probe r y)) ys)"
  by (induction ys arbitrary: s) (simp_all add: probe_def split_beta Let_def)

lemma count_rows_probe:
  "count_rows r g s =
     (s + sum_list (map (\<lambda>x. length (filter (\<lambda>y. fst (probe r y)) x)) g),
      map (map (\<lambda>y. snd (probe r y))) g)"
  by (induction g arbitrary: s) (simp_all add: count_row_probe)

lemma snd_count_rows: "snd (count_rows r g s) = scanned r g"
  by (simp add: count_rows_probe scanned_def)

lemma length_scanned: "length (scanned r g) = length g"
  by (simp add: scanned_def)

lemma nth_scanned: "i < length g \<Longrightarrow> scanned r g ! i = map (\<lambda>y. snd (probe r y)) (g ! i)"
  by (simp add: scanned_def)

lemma kept_scanned: "list_all2 (list_all2 kept) g (scanned r g)"
  by (simp add: scanned_def list_all2_map2 list_all2_same kept_probe)

lemma coords_scanned: "map (map coords) (scanned r g) = map (map coords) g"
  by (simp add: scanned_def coords_def probe_coords)

lemma append_entries_closed:
  "i < length g \<Longrightarrow>
   append_entries r i js (s, g) = Inr (s + cnt r i js, g[i := g ! i @ map (fresh r i) js])"
proof (induction js arbitrary: s g)
  case Nil
  then show ?case by (simp add: cnt_def)
next
  case (Cons j js)
  let ?p = "probe r (new_GaussInt (int i) (int j))"
  let ?g = "g[i := g ! i @ [snd ?p]]"
  have step: "append_entries r i (j # js) (s, g) =
      append_entries r i js (s + (if fst ?p then 1 else 0), ?g)"
    using Cons.prems by (simp add: probe_def split_beta Let_def)
  have len: "i < length ?g" using Cons.prems by simp
  show ?case
    unfolding step Cons.IH[OF len]
    using Cons.prems by (simp add: cnt_def fresh_hit fresh_def[symmetric])
qed

lemma ti_row_closed: "ti_row r i js s = s + cnt r i js"
proof (induction js arbitrary: s)
  case Nil
  then show ?case by (simp add: cnt_def)
next
  case (Cons j js)
  let ?p = "probe r (new_GaussInt (int i) (int j))"
  have step: "ti_row r i (j # js) s = ti_row r i js (s + (if fst ?p then 1 else 0))"
    by (simp add: probe_def split_beta Let_def)
  show ?case unfolding step Cons.IH by (simp add: cnt_def fresh_hit)
qed

lemma length_ext_upto: "length (ext_upto r L n m k g) = max n k"
  by (simp add: ext_upto_def)

lemma nth_ext_upto:
  "i < max n k \<Longrightarrow> ext_upto r L n m k g ! i =
     (if i < n then (if i < k then g ! i @ map (fresh r i) [m..<L] else g ! i)
      else map (fresh r i) [0..<L])"
  by (simp add: ext_upto_def)

lemma ext_upto_0: "length g = n \<Longrightarrow> ext_upto r L n m 0 g = g"
  by (rule nth_equalityI) (simp_all add: length_ext_upto nth_ext_upto)

lemma ext_step_old:
  assumes "k < n"
  shows "(ext_upto r L n m k g)[k := ext_upto r L n m k g ! k @ map (fresh r k) [m..<L]]
         = ext_upto r L n m (Suc k) g"
proof (rule nth_equalityI)
  show "length ((ext_upto r L n m k g)[k := ext_upto r L n m k g ! k @ map (fresh r k) [m..<L]])
        = length (ext_upto r L n m (Suc k) g)"
    using assms by (simp add: length_ext_upto)
next
  fix i
  assume "i < length ((ext_upto r L n m k g)[k := ext_upto r L n m k g ! k @ map (fresh r k) [m..<L]])"
  then have i: "i < n" using assms by (simp add: length_ext_upto)
  show "(ext_upto r L n m k g)[k := ext_upto r L n m k g ! k @ map (fresh r k) [m..<L]] ! i
        = ext_upto r L n m (Suc k) g ! i"
    using assms i by (cases "i = k") (simp_all add: length_ext_upto nth_ext_upto)
qed

lemma ext_step_new:
  assumes "n \<le> k"
  shows "(ext_upto r L n m k g @ [[]])[k := (ext_upto r L n m k g @ [[]]) ! k @ map (fresh r k) [0..<L]]
         = ext_upto r L n m (Suc k) g"
proof (rule nth_equalityI)
  show "length ((ext_upto r L n m k g @ [[]])[k := (ext_upto r L n m k g @ [[]]) ! k @ map (fresh r k) [0..<L]])
        = length (ext_upto r L n m (Suc k) g)"
    using assms by (simp add: length_ext_upto)
next
  fix i
  assume "i < length ((ext_upto r L n m k g @ [[]])[k := (ext_upto r L n m k g @ [[]]) ! k @ map (fresh r k) [0..<L]])"
  then have i: "i < Suc k" using assms by (simp add: length_ext_upto)
  have lk: "length (ext_upto r L n m k g) = k" using assms by (simp add: length_ext_upto)
  show "(ext_upto r L n m k g @ [[]])[k := (ext_upto r L n m k g @ [[]]) ! k @ map (fresh r k) [0..<L]] ! i
        = ext_upto r L n m (Suc k) g ! i"
  proof (cases "i = k")
    case True
    then show ?thesis using assms by (simp add: lk nth_ext_upto nth_append)
  next
    case False
    then have "i < k" using i by simp
    then show ?thesis using assms False by (simp add: lk nth_ext_upto nth_append)
  qed
qed

lemma extend_rows_closed:
  "k \<le> L \<Longrightarrow>
   extend_rows r L n m [k..<L] (s, ext_upto r L n m k g) =
     Inr (s + (\<Sum>i = k..<L. cnt r i [min_b n m i..<L]), ext_upto r L n m L g)"
proof (induction "L - k" arbitrary: k s)
  case 0
  then have "k = L" by simp
  then show ?case by simp
next
  case (Suc d)
  then have kL: "k < L" by simp
  have upt: "[k..<L] = k # [Suc k..<L]" using kL by (simp add: upt_conv_Cons)
  have IH: "extend_rows r L n m [Suc k..<L] (s', ext_upto r L n m (Suc k) g) =
     Inr (s' + (\<Sum>i = Suc k..<L. cnt r i [min_b n m i..<L]), ext_upto r L n m L g)" for s'
    using Suc.hyps(1)[of "Suc k" s'] Suc.hyps(2) kL by simp
  have sum: "(\<Sum>i = k..<L. cnt r i [min_b n m i..<L]) =
      cnt r k [min_b n m k..<L] + (\<Sum>i = Suc k..<L. cnt r i [min_b n m i..<L])"
    using kL by (simp add: sum.atLeast_Suc_lessThan)
  show ?case
  proof (cases "k < n")
    case True
    have len: "k < length (ext_upto r L n m k g)" using True by (simp add: length_ext_upto)
    have mb: "min_b n m k = m" using True by (simp add: min_b_def)
    show ?thesis
      unfolding upt sum
      using True by (simp add: append_entries_closed[OF len] mb ext_step_old[OF True] IH)
  next
    case False
    then have nk: "n \<le> k" by simp
    have len: "k < length (ext_upto r L n m k g @ [[]])" using nk by (simp add: length_ext_upto)
    have mb: "min_b n m k = 0" using nk by (simp add: min_b_def)
    show ?thesis
      unfolding upt sum
      using nk by (simp add: append_entries_closed[OF len] mb ext_step_new[OF nk] IH)
  qed
qed

lemma ti_no_waste_closed:
  assumes "g \<noteq> []" and "0 \<le> r"
  shows "ti_no_waste r (Some g) =
     Inr (fst (count_rows r g 0) +
            (\<Sum>i = 0..<limit_of r. cnt r i [min_b (length g) (length (g ! 0)) i..<limit_of r]),
          ext_upto r (limit_of r) (length g) (length (g ! 0)) (limit_of r) (scanned r g))"
proof -
  obtain x0 xs where g: "g = x0 # xs" using assms(1) by (cases g) auto
  have L: "limit_of r - 1 + 1 = limit_of r" by (simp add: limit_of_def)
  have e0: "ext_upto r (limit_of r) (length g) (length (g ! 0)) 0 (scanned r g) = scanned r g"
    by (rule ext_upto_0) (simp add: length_scanned)
  have cr: "count_rows r g 0 = (fst (count_rows r g 0), scanned r g)"
    by (simp add: count_rows_probe scanned_def)
  have isq: "int_sqrt r = Inr (np_sqrt_trunc r)"
    using assms(2) by (simp add: int_sqrt_def)
  have "ti_no_waste r (Some g) =
     extend_rows r (limit_of r) (length g) (length (g ! 0)) [0..<limit_of r] (count_rows r g 0)"
    unfolding ti_no_waste_def isq limit_of_def
    by (simp add: g Let_def split_beta del: count_rows.simps)
  also have "\<dots> = extend_rows r (limit_of r) (length g) (length (g ! 0)) [0..<limit_of r]
       (fst (count_rows r g 0), scanned r g)"
    by (subst cr) (rule refl)
  also have "\<dots> = extend_rows r (limit_of r) (length g) (length (g ! 0)) [0..<limit_of r]
       (fst (count_rows r g 0), ext_upto r (limit_of r) (length g) (length (g ! 0)) 0 (scanned r g))"
    by (simp only: e0)
  finally show ?thesis
    by (simp only: extend_rows_closed[OF le0])
qed

lemma sum_list_upt: "sum_list (map f [m..<n]) = (\<Sum>i = m..<n. f i)"
  by (simp add: interv_sum_list_conv_sum_set_nat)

lemma ti_rows_closed: "ti_rows r L ks s = s + sum_list (map (\<lambda>i. cnt r i [0..<L]) ks)"
  by (induction ks arbitrary: s) (simp_all add: ti_row_closed)

lemma ti_closed: "0 \<le> r \<Longrightarrow> ti r = Inr (\<Sum>i = 0..<limit_of r. cnt r i [0..<limit_of r])"
  by (simp add: ti_def int_sqrt_def limit_of_def ti_rows_closed sum_list_upt)

subsection \<open>Counting points\<close>

lemma hit_bound:
  assumes "0 \<le> r" and "hit r i j"
  shows "i < limit_of r" and "j < limit_of r"
proof -
  have n: "real (i * i) + real (j * j) \<le> r"
    using assms(2) by (simp add: hit_def)
  have "real (i * i) \<le> r" using n by linarith
  then show "i < limit_of r" by (rule sq_less_limit[OF assms(1)])
  have "real (j * j) \<le> r" using n by linarith
  then show "j < limit_of r" by (rule sq_less_limit[OF assms(1)])
qed

lemma length_filter_sum: "length (filter P xs) = sum_list (map (\<lambda>x. if P x then 1 else 0) xs)"
  by (induction xs) simp_all

lemma cnt_sum: "cnt r i [x..<y] = (\<Sum>j = x..<y. hits r i j)"
  by (simp add: cnt_def length_filter_sum sum_list_upt hits_def)

lemma hits_zero_row: "0 \<le> r \<Longrightarrow> limit_of r \<le> i \<Longrightarrow> hits r i j = 0"
  using hit_bound(1)[of r i j] by (auto simp add: hits_def)

lemma hits_zero_col: "0 \<le> r \<Longrightarrow> limit_of r \<le> j \<Longrightarrow> hits r i j = 0"
  using hit_bound(2)[of r i j] by (auto simp add: hits_def)

lemma row_sum_cut:
  assumes "0 \<le> r" and "limit_of r \<le> n"
  shows "(\<Sum>j = 0..<n. hits r i j) = (\<Sum>j = 0..<limit_of r. hits r i j)"
proof -
  have "(\<Sum>j = 0..<n. hits r i j) =
        (\<Sum>j = 0..<limit_of r. hits r i j) + (\<Sum>j = limit_of r..<n. hits r i j)"
    using assms(2) by (simp add: sum.atLeastLessThan_concat)
  moreover have "(\<Sum>j = limit_of r..<n. hits r i j) = 0"
    using assms(1) by (simp add: hits_zero_col)
  ultimately show ?thesis by simp
qed

lemma square_sum_cut:
  assumes "0 \<le> r" and "limit_of r \<le> n"
  shows "(\<Sum>i = 0..<n. \<Sum>j = 0..<n. hits r i j) =
         (\<Sum>i = 0..<limit_of r. \<Sum>j = 0..<limit_of r. hits r i j)"
proof -
  have "(\<Sum>i = 0..<n. \<Sum>j = 0..<n. hits r i j) =
        (\<Sum>i = 0..<limit_of r. \<Sum>j = 0..<n. hits r i j) +
        (\<Sum>i = limit_of r..<n. \<Sum>j = 0..<n. hits r i j)"
    using assms(2) by (simp add: sum.atLeastLessThan_concat)
  moreover have "(\<Sum>i = limit_of r..<n. \<Sum>j = 0..<n. hits r i j) = 0"
    using assms(1) by (simp add: hits_zero_row)
  ultimately show ?thesis by (simp add: row_sum_cut[OF assms])
qed

lemma sum_list_map_nth: "sum_list (map f xs) = (\<Sum>i = 0..<length xs. f (xs ! i))"
proof -
  have "sum_list (map f xs) = (\<Sum>i = 0..<length (map f xs). map f xs ! i)"
    by (rule sum_list_sum_nth)
  then show ?thesis by simp
qed

lemma step2_sum_square:
  assumes "0 \<le> r"
  shows "(\<Sum>i = 0..<n. \<Sum>j = 0..<n. hits r i j) +
         (\<Sum>i = 0..<limit_of r. \<Sum>j = min_b n n i..<limit_of r. hits r i j) =
         (\<Sum>i = 0..<limit_of r. \<Sum>j = 0..<limit_of r. hits r i j)"
proof (cases "limit_of r \<le> n")
  case True
  have "(\<Sum>j = min_b n n i..<limit_of r. hits r i j) = 0" if "i \<in> {0..<limit_of r}" for i
    using that True by (simp add: min_b_def)
  then have "(\<Sum>i = 0..<limit_of r. \<Sum>j = min_b n n i..<limit_of r. hits r i j) = 0"
    by simp
  then show ?thesis using square_sum_cut[OF assms True] by simp
next
  case False
  define L where "L = limit_of r"
  have nL: "n \<le> L" using False by (simp add: L_def)
  have a1: "(\<Sum>i = 0..<L. \<Sum>j = min_b n n i..<L. hits r i j) =
        (\<Sum>i = 0..<n. \<Sum>j = min_b n n i..<L. hits r i j) +
        (\<Sum>i = n..<L. \<Sum>j = min_b n n i..<L. hits r i j)"
    using nL by (simp add: sum.atLeastLessThan_concat)
  have a2: "(\<Sum>i = 0..<n. \<Sum>j = min_b n n i..<L. hits r i j) = (\<Sum>i = 0..<n. \<Sum>j = n..<L. hits r i j)"
    by (rule sum.cong) (simp_all add: min_b_def)
  have a3: "(\<Sum>i = n..<L. \<Sum>j = min_b n n i..<L. hits r i j) = (\<Sum>i = n..<L. \<Sum>j = 0..<L. hits r i j)"
    by (rule sum.cong) (simp_all add: min_b_def)
  have b1: "(\<Sum>i = 0..<L. \<Sum>j = 0..<L. hits r i j) =
        (\<Sum>i = 0..<n. \<Sum>j = 0..<L. hits r i j) + (\<Sum>i = n..<L. \<Sum>j = 0..<L. hits r i j)"
    using nL by (simp add: sum.atLeastLessThan_concat)
  have b2: "(\<Sum>j = 0..<L. hits r i j) = (\<Sum>j = 0..<n. hits r i j) + (\<Sum>j = n..<L. hits r i j)" for i
    using nL by (simp add: sum.atLeastLessThan_concat)
  have b3: "(\<Sum>i = 0..<n. \<Sum>j = 0..<L. hits r i j) =
        (\<Sum>i = 0..<n. \<Sum>j = 0..<n. hits r i j) + (\<Sum>i = 0..<n. \<Sum>j = n..<L. hits r i j)"
    by (simp add: b2 sum.distrib)
  show ?thesis
    unfolding L_def[symmetric] a1 a2 a3 b1 b3 by simp
qed

subsection \<open>Grid invariants\<close>


lemma memo_ok_all: "memo_ok g = all_entries (\<lambda>i j e. entry_ok (int i) (int j) e) g"
  by (simp add: memo_ok_def all_entries_def)

lemma memo_ok_coords: "memo_ok g \<Longrightarrow> coords_ok g"
  by (simp add: memo_ok_def coords_ok_def entry_ok_def)

lemma scan_count:
  assumes "memo_ok g"
  shows "fst (count_rows r g 0) = (\<Sum>i = 0..<length g. \<Sum>j = 0..<length (g ! i). hits r i j)"
proof -
  have row: "length (filter (\<lambda>y. fst (probe r y)) (g ! i)) = (\<Sum>j = 0..<length (g ! i). hits r i j)"
    if i: "i < length g" for i
  proof -
    have "fst (probe r (g ! i ! j)) = hit r i j" if "j < length (g ! i)" for j
      using assms i that probe_ok(1)[of "int i" "int j" "g ! i ! j" r]
      by (simp add: memo_ok_def hit_def)
    then show ?thesis
      by (simp add: length_filter_sum sum_list_map_nth hits_def)
  qed
  have "fst (count_rows r g 0) = (\<Sum>i = 0..<length g. length (filter (\<lambda>y. fst (probe r y)) (g ! i)))"
    by (simp add: count_rows_probe sum_list_map_nth)
  then show ?thesis using row by simp
qed

lemma ext_all_entries:
  assumes pres: "\<And>i j e. P i j e \<Longrightarrow> P i j (snd (probe r e))"
    and fr: "\<And>i j. P i j (fresh r i j)"
    and g: "all_entries P g"
    and rect: "\<forall>i<length g. length (g ! i) = m"
  shows "all_entries P (ext_upto r L (length g) m L (scanned r g))"
  unfolding all_entries_def length_ext_upto
proof (intro allI impI)
  fix i j
  assume i: "i < max (length g) L"
    and j: "j < length (ext_upto r L (length g) m L (scanned r g) ! i)"
  show "P i j (ext_upto r L (length g) m L (scanned r g) ! i ! j)"
  proof (cases "i < length g")
    case True
    have old: "P i j (scanned r g ! i ! j)" if "j < m" for j
      using that True g rect pres by (simp add: nth_scanned all_entries_def)
    have ls: "length (scanned r g ! i) = m" using True rect by (simp add: nth_scanned)
    show ?thesis
    proof (cases "j < m")
      case jm: True
      then show ?thesis using True i old[OF jm] ls by (simp add: nth_ext_upto nth_append)
    next
      case jm: False
      then have "i < L" and "j < L" and "m \<le> j"
        using True i j ls by (auto simp add: nth_ext_upto split: if_splits)
      then show ?thesis using True i ls fr by (simp add: nth_ext_upto nth_append)
    qed
  next
    case False
    then have "j < L" using i j by (simp add: nth_ext_upto)
    then show ?thesis using False i fr by (simp add: nth_ext_upto)
  qed
qed


lemma ext_memo:
  "memo_ok g \<Longrightarrow> \<forall>i<length g. length (g ! i) = m \<Longrightarrow>
   memo_ok (ext_upto r L (length g) m L (scanned r g))"
  unfolding memo_ok_all
  by (rule ext_all_entries) (simp_all add: probe_ok fresh_ok)

lemma sq_step:
  assumes "sq n g" and "0 \<le> r"
  shows "\<exists>s g'. ti_no_waste r (Some g) = Inr (s, g') \<and> ti r = Inr s \<and>
           sq (max n (limit_of r)) g'"
proof -
  define L where "L = limit_of r"
  have n0: "0 < n" and len: "length g = n" and rows: "\<forall>i<length g. length (g ! i) = n"
    and memo: "memo_ok g"
    using assms(1) by (simp_all add: sq_def)
  have ne: "g \<noteq> []" using n0 len by auto
  have l0: "length (g ! 0) = n" using rows n0 len by simp
  define g' where "g' = ext_upto r L n n L (scanned r g)"
  have run: "ti_no_waste r (Some g) =
     Inr (fst (count_rows r g 0) + (\<Sum>i = 0..<L. cnt r i [min_b n n i..<L]), g')"
    using ti_no_waste_closed[OF ne assms(2)] by (simp add: len l0 L_def g'_def)
  have c1: "fst (count_rows r g 0) = (\<Sum>i = 0..<n. \<Sum>j = 0..<n. hits r i j)"
    using scan_count[OF memo, of r] rows by (simp add: len)
  have total: "fst (count_rows r g 0) + (\<Sum>i = 0..<L. cnt r i [min_b n n i..<L]) =
        (\<Sum>i = 0..<L. \<Sum>j = 0..<L. hits r i j)"
    unfolding c1 cnt_sum L_def by (rule step2_sum_square[OF assms(2)])
  have ti: "ti r = Inr (\<Sum>i = 0..<L. \<Sum>j = 0..<L. hits r i j)"
    using ti_closed[OF assms(2)] by (simp add: cnt_sum L_def)
  have m': "memo_ok g'"
    using ext_memo[OF memo rows, of r L] by (simp add: g'_def len)
  have lg': "length g' = max n L" by (simp add: g'_def length_ext_upto)
  have rl: "length (g' ! i) = max n L" if "i < max n L" for i
    using that rows len by (auto simp add: g'_def nth_ext_upto nth_scanned)
  have "sq (max n L) g'"
    using n0 lg' rl m' by (simp add: sq_def)
  then show ?thesis using run total ti by (simp add: L_def)
qed

lemma grid_le_trans: "grid_le g1 g2 \<Longrightarrow> grid_le g2 g3 \<Longrightarrow> grid_le g1 g3"
  unfolding grid_le_def by (meson le_trans less_le_trans)

lemma sq_grid_le: "sq n g \<Longrightarrow> sq n' g' \<Longrightarrow> n \<le> n' \<Longrightarrow> grid_le g g'"
  by (simp add: sq_def grid_le_def)

lemma sq_seed: "sq 2 seed"
  by (simp add: sq_def seed_def memo_ok_def entry_ok_new less_Suc_eq nth_Cons' numeral_2_eq_2)

lemma square_grid_seed: "square_grid 2 seed"
  by (simp add: square_grid_def sq_seed[unfolded sq_def] memo_ok_coords)

lemma ti_no_waste_None: "ti_no_waste r None = ti_no_waste r (Some seed)"
  by (simp add: ti_no_waste_def)

lemma ti_no_waste_seq_None: "ti_no_waste_seq rs None = ti_no_waste_seq rs (Some seed)"
  by (cases rs) (simp_all add: ti_no_waste_None)

lemma sq_seq:
  assumes "sq n g" and "\<forall>r\<in>set rs. 0 \<le> r"
  shows "\<exists>out. ti_no_waste_seq rs (Some g) = Inr out \<and> length out = length rs \<and>
           (\<forall>k<length rs. ti (rs ! k) = Inr (fst (out ! k))) \<and>
           sorted_wrt grid_le (g # map snd out) \<and>
           (\<forall>x\<in>set out. coords_ok (snd x))"
  using assms
proof (induction rs arbitrary: n g)
  case Nil
  then show ?case by simp
next
  case (Cons r rs)
  have r0: "0 \<le> r" and rest: "\<forall>r\<in>set rs. 0 \<le> r" using Cons.prems(2) by simp_all
  obtain s g1 where run: "ti_no_waste r (Some g) = Inr (s, g1)" and cnt: "ti r = Inr s"
    and sq1: "sq (max n (limit_of r)) g1"
    using sq_step[OF Cons.prems(1) r0] by blast
  obtain out where seq: "ti_no_waste_seq rs (Some g1) = Inr out" and len: "length out = length rs"
    and cnts: "\<forall>k<length rs. ti (rs ! k) = Inr (fst (out ! k))"
    and srt: "sorted_wrt grid_le (g1 # map snd out)"
    and co: "\<forall>x\<in>set out. coords_ok (snd x)"
    using Cons.IH[OF sq1 rest] by blast
  have le1: "grid_le g g1" using sq_grid_le[OF Cons.prems(1) sq1] by simp
  have le_all: "\<forall>x\<in>set (map snd out). grid_le g x"
    using srt le1 grid_le_trans by auto
  have c1: "coords_ok g1" using sq1 by (simp add: sq_def memo_ok_coords)
  have cs: "\<forall>k<length (r # rs). ti ((r # rs) ! k) = Inr (fst (((s, g1) # out) ! k))"
    using cnt cnts by (simp add: nth_Cons split: nat.splits)
  have "ti_no_waste_seq (r # rs) (Some g) = Inr ((s, g1) # out)"
    by (simp add: run seq)
  then show ?case using len cs srt le1 le_all c1 co by auto
qed

subsection \<open>Counting\<close>


text \<open>
  Claim C3, as amended. With no grid passed, \<^verbatim>\<open>ti_no_waste(2)\<close> returns the count 1:
  of the four seed points only \<open>(1,1)\<close>, of norm 2, is prime; \<open>(0,1)\<close> and \<open>(1,0)\<close> have
  norm 1 and are not. The count is not 3.
\<close>

theorem count_2_is_1: "map_sum id fst (ti_no_waste 2 None) = Inr 1"
  by code_simp

theorem count_2_is_not_3: "map_sum id fst (ti_no_waste 2 None) \<noteq> Inr 3"
  by code_simp

text \<open>
  Claim C6, as amended. For every \<open>r < 0\<close> and every grid, \<^verbatim>\<open>ti_no_waste\<close> returns no
  count at all, neither 0 nor another: the limit computation \<^verbatim>\<open>int(np.sqrt(r))\<close> raises
  \<^verbatim>\<open>ValueError\<close>, and the call fails with this error (with \<^verbatim>\<open>IndexError\<close> on a grid
  with no row).
\<close>

theorem negative_radius_raises:
  "r < 0 \<Longrightarrow>
   int_sqrt r = Inl ValueError \<and>
   ti_no_waste r ints_arg = Inl (if ints_arg = Some [] then IndexError else ValueError) \<and>
   (\<exists>e. ti_no_waste r ints_arg = Inl e)"
  by (cases ints_arg; cases "the ints_arg")
     (simp_all add: ti_no_waste_def int_sqrt_def seed_def split_beta Let_def)

theorem negative_radius_raises_witness:
  "(- 1 :: real) < 0 \<and> int_sqrt (- 1) = Inl ValueError \<and>
   ti_no_waste (- 1) None = Inl ValueError \<and>
   ti_no_waste (- 1) (Some [[new_GaussInt 0 0]]) = Inl ValueError \<and>
   ti_no_waste (- 1) (Some []) = Inl IndexError"
  using negative_radius_raises [of "- 1" None]
    negative_radius_raises [of "- 1" "Some [[new_GaussInt 0 0]]"]
    negative_radius_raises [of "- 1" "Some []"]
  by simp

theorem negative_radius_not_zero: "map_sum id fst (ti_no_waste (- 1) None) \<noteq> Inr 0"
  by code_simp

text \<open>
  Claim C1. Radii \<open>r0 \<le> r1 \<le> ... \<le> rN\<close>, the first at least 0, are fed one by one to
  \<^verbatim>\<open>ti_no_waste\<close>, the first call with no grid and each later call with the grid the
  call before returned. Every call returns, and the count of the last call is \<^verbatim>\<open>ti(rN)\<close>;
  so is the count of every call for its own radius.
\<close>

theorem incremental_equals_fresh:
  assumes "rs \<noteq> []" and "sorted rs" and "0 \<le> hd rs"
  shows "\<exists>out. ti_no_waste_seq rs None = Inr out \<and> length out = length rs \<and>
           ti (last rs) = Inr (fst (last out)) \<and>
           (\<forall>k<length rs. ti (rs ! k) = Inr (fst (out ! k)))"
proof -
  have nonneg: "\<forall>r\<in>set rs. 0 \<le> r"
  proof
    fix r assume "r \<in> set rs"
    then have "hd rs \<le> r" using assms(1,2) by (cases rs) auto
    then show "0 \<le> r" using assms(3) by simp
  qed
  obtain out where seq: "ti_no_waste_seq rs (Some seed) = Inr out" and len: "length out = length rs"
    and cnts: "\<forall>k<length rs. ti (rs ! k) = Inr (fst (out ! k))"
    using sq_seq[OF sq_seed nonneg] by blast
  have "out \<noteq> []" using len assms(1) by auto
  then have "last out = out ! (length rs - 1)" using len by (simp add: last_conv_nth)
  moreover have "last rs = rs ! (length rs - 1)" using assms(1) by (simp add: last_conv_nth)
  moreover have "length rs - 1 < length rs" using assms(1) by simp
  ultimately have "ti (last rs) = Inr (fst (last out))" using cnts by metis
  then show ?thesis using seq len cnts by (simp add: ti_no_waste_seq_None)
qed

theorem incremental_equals_fresh_witness:
  "sorted [0, 2, 5 :: real] \<and>
   (\<exists>out. ti_no_waste_seq [0, 2, 5] None = Inr out \<and> length out = 3 \<and>
          ti 5 = Inr (fst (last out))) \<and>
   map_sum id (map fst) (ti_no_waste_seq [0, 2, 5] None) = Inr [0, 1, 3] \<and>
   ti 5 = Inr 3"
proof -
  have h1: "[0, 2, 5 :: real] \<noteq> []" by simp
  have h2: "sorted [0, 2, 5 :: real]" by simp
  have h3: "0 \<le> hd [0, 2, 5 :: real]" by simp
  have e1: "map_sum id (map fst) (ti_no_waste_seq [0, 2, 5] None) = Inr [0, 1, 3]" by code_simp
  have e2: "ti 5 = Inr 3" by code_simp
  show ?thesis
    using incremental_equals_fresh [OF h1 h2 h3] h2 e1 e2 by auto
qed

text \<open>
  Claim C4. For radii that are all at least 0, fed one by one from the seed grid, every
  call returns, and in the list of the seed and the grids after the calls each grid has
  no fewer rows than every earlier one and each of its rows is no shorter (rows are never
  removed or shortened); in each grid the entry at position \<open>j\<close> of row \<open>i\<close> has the
  coordinates \<open>(i, j)\<close>.
\<close>

theorem grid_shape_invariant:
  assumes "\<forall>r\<in>set rs. 0 \<le> r"
  shows "\<exists>out. ti_no_waste_seq rs None = Inr out \<and> length out = length rs \<and>
           sorted_wrt grid_le (seed # map snd out) \<and>
           (\<forall>x\<in>set out. coords_ok (snd x))"
  using sq_seq[OF sq_seed assms] by (auto simp add: ti_no_waste_seq_None)

theorem grid_shape_invariant_witness:
  "(\<exists>out. ti_no_waste_seq [5, 2, 10] None = Inr out \<and> length out = 3 \<and>
          sorted_wrt grid_le (seed # map snd out) \<and>
          (\<forall>x\<in>set out. coords_ok (snd x))) \<and>
   map_sum id (map (map length \<circ> snd)) (ti_no_waste_seq [5, 2, 10] None)
     = Inr [[3, 3, 3], [3, 3, 3], [4, 4, 4, 4]]"
proof -
  have h: "\<forall>r\<in>set [5, 2, 10 :: real]. 0 \<le> r" by simp
  have e: "map_sum id (map (map length \<circ> snd)) (ti_no_waste_seq [5, 2, 10] None)
     = Inr [[3, 3, 3], [3, 3, 3], [4, 4, 4, 4]]" by code_simp
  show ?thesis
    using grid_shape_invariant [OF h] e by auto
qed




text \<open>
  Claim C10, as amended. On a square grid of size \<open>n\<close> with \<open>0 \<le> r\<close> and
  \<^verbatim>\<open>int(np.sqrt(r)) + 1\<close>, the limit the code computes, at most \<open>n\<close>, the call returns
  exactly what the scan of the existing entries gives: the count of the scan, and the
  scanned grid, in which every row has the entries it had, each the same point with no
  filled cache changed. No row and no entry is appended. The limit the code computes is
  \<open>\<lfloor>sqrt r\<rfloor> + 1\<close> or \<open>\<lfloor>sqrt r\<rfloor> + 2\<close> (lemma \<open>limit_of_bounds\<close>), the latter when the
  double-precision root is rounded up to the next integer.
\<close>

theorem covered_radius_appends_nothing:
  assumes "square_grid n g" and "0 \<le> r" and "int_sqrt r = Inr q" and "q + 1 \<le> n"
  shows "ti_no_waste r (Some g) = Inr (count_rows r g 0) \<and>
         list_all2 (list_all2 kept) g (snd (count_rows r g 0)) \<and>
         map (map coords) (snd (count_rows r g 0)) = map (map coords) g"
proof -
  define L where "L = limit_of r"
  have "q = np_sqrt_trunc r" using assms(2,3) by (simp add: int_sqrt_def)
  then have Ln: "L \<le> n" using assms(4) by (simp add: L_def limit_of_def)
  have L0: "0 < L" by (simp add: L_def limit_of_def)
  have len: "length g = n" and rows: "\<forall>i<n. length (g ! i) = n"
    using assms(1) by (simp_all add: square_grid_def)
  have ne: "g \<noteq> []" using len Ln L0 by auto
  have l0: "length (g ! 0) = n" using rows Ln L0 by simp
  have zero: "(\<Sum>i = 0..<L. cnt r i [min_b n n i..<L]) = 0"
    using Ln by (simp add: min_b_def cnt_def)
  have same: "ext_upto r L n n L (scanned r g) = scanned r g"
  proof (rule nth_equalityI)
    show "length (ext_upto r L n n L (scanned r g)) = length (scanned r g)"
      using Ln by (simp add: length_ext_upto length_scanned len)
  next
    fix i assume "i < length (ext_upto r L n n L (scanned r g))"
    then have "i < n" using Ln by (simp add: length_ext_upto)
    then show "ext_upto r L n n L (scanned r g) ! i = scanned r g ! i"
      using Ln by (simp add: nth_ext_upto)
  qed
  have "ti_no_waste r (Some g) = Inr (fst (count_rows r g 0), scanned r g)"
    using ti_no_waste_closed[OF ne assms(2)] zero same by (simp add: len l0 L_def)
  then have "ti_no_waste r (Some g) = Inr (count_rows r g 0)"
    by (simp add: count_rows_probe scanned_def)
  then show ?thesis
    by (simp add: snd_count_rows kept_scanned coords_scanned)
qed

theorem covered_radius_appends_nothing_witness:
  "square_grid 2 seed \<and> (0 :: real) \<le> 2 \<and> int_sqrt 2 = Inr 1 \<and>
   ti_no_waste 2 (Some seed) = Inr (count_rows 2 seed 0) \<and>
   map (map coords) (snd (count_rows 2 seed 0)) = map (map coords) seed \<and>
   map (map coords) seed = [[(0, 0), (0, 1)], [(1, 0), (1, 1)]] \<and>
   fst (count_rows 2 seed 0) = 1"
proof -
  have h2: "(0 :: real) \<le> 2" by simp
  have h3: "int_sqrt 2 = Inr 1" by code_simp
  have h4: "(1 :: nat) + 1 \<le> 2" by simp
  have e1: "map (map coords) seed = [[(0, 0), (0, 1)], [(1, 0), (1, 1)]]" by code_simp
  have e2: "fst (count_rows 2 seed 0) = 1" by code_simp
  show ?thesis
    using covered_radius_appends_nothing [OF square_grid_seed h2 h3 h4] square_grid_seed h3 e1 e2
    by simp
qed

text \<open>
  The claim as first stated, with \<open>\<lfloor>sqrt r\<rfloor> + 1 \<le> n\<close>, fails at \<open>r = 25 - 2 ^ -48\<close>, a
  double, on the square of size 5 that \<^verbatim>\<open>ti_no_waste(16)\<close> returns: \<open>\<lfloor>sqrt r\<rfloor> + 1 = 5\<close>,
  but the double nearest to the root is 5.0, so that \<^verbatim>\<open>int(np.sqrt(r))\<close> is 5, the limit
  is 6, and the call appends a sixth row and a sixth entry to every row.
\<close>

theorem rounded_root_appends:
  "square_grid 5 grid5 \<and> map length grid5 = [5, 5, 5, 5, 5] \<and>
   (0 :: real) \<le> 25 - 1 / 2 ^ 48 \<and>
   nat \<lfloor>sqrt (25 - 1 / 2 ^ 48)\<rfloor> + 1 \<le> 5 \<and>
   int_sqrt (25 - 1 / 2 ^ 48) = Inr 5 \<and>
   map_sum id (map length \<circ> snd) (ti_no_waste (25 - 1 / 2 ^ 48) (Some grid5))
     = Inr [6, 6, 6, 6, 6, 6]"
proof -
  obtain s g' where run: "ti_no_waste 16 (Some seed) = Inr (s, g')"
    and sq': "sq (max 2 (limit_of 16)) g'"
    using sq_step[OF sq_seed, of 16] by auto
  have l: "limit_of 16 = 5" by code_simp
  have g5: "grid5 = g'" by (simp add: grid5_def ti_no_waste_None run)
  have s5: "square_grid 5 grid5"
    using sq' memo_ok_coords by (simp add: g5 l sq_def square_grid_def)
  have r0: "(0 :: real) \<le> 25 - 1 / 2 ^ 48" by simp
  have fl: "isqrt (nat \<lfloor>25 - 1 / 2 ^ 48 :: real\<rfloor>) = 4" by code_simp
  have h: "nat \<lfloor>sqrt (25 - 1 / 2 ^ 48)\<rfloor> + 1 \<le> 5"
    using isqrt_floor_sqrt[OF r0] fl by simp
  have e1: "map length grid5 = [5, 5, 5, 5, 5]" by code_simp
  have e2: "int_sqrt (25 - 1 / 2 ^ 48) = Inr 5" by code_simp
  have e3: "map_sum id (map length \<circ> snd) (ti_no_waste (25 - 1 / 2 ^ 48) (Some grid5))
     = Inr [6, 6, 6, 6, 6, 6]" by code_simp
  show ?thesis using s5 r0 h e1 e2 e3 by simp
qed

end
